theory Spec2Isabelle
  imports Main "HOL-Library.Multiset"
begin

section \<open>Data model of the balancer package\<close>

text \<open>
  The balancer fragment of \<^verbatim>\<open>src/core/vm/contracts.go\<close> (package \<^verbatim>\<open>balancer\<close>).
  Pointers to \<^verbatim>\<open>Worker\<close> structs are addresses into an explicit memory; Go's \<^verbatim>\<open>int\<close>
  values are integers, and where the code computes with them (\<^verbatim>\<open>poolSize*10\<close>,
  \<^verbatim>\<open>pending++\<close>, \<^verbatim>\<open>pending--\<close>) the wrap-around at the width of the platform is
  written out; positions of the slice are natural numbers, and an access out of range is
  the run-time panic of Go, the result \<open>None\<close>.
\<close>

datatype error = ErrNil | ErrVal string

text \<open>
  A channel of tasks is either the balancer's \<^verbatim>\<open>work\<close> channel or the \<^verbatim>\<open>tasks\<close>
  channel made for the worker of one loop iteration of \<^verbatim>\<open>New\<close>.
\<close>

datatype chanref = BalancerWork | WorkerTasks nat

text \<open>
  \<^verbatim>\<open>type Task struct { fn func() error; c chan error }\<close>. The callable is modelled by
  what a call gives: \<open>Some e\<close> when it returns the error value \<open>e\<close>, \<open>None\<close> when it
  never returns. The return channel is a reference (a number) to a channel of errors.
\<close>

record Task =
  fn :: "unit \<Rightarrow> error option"
  c :: nat

definition NewTask :: "(unit \<Rightarrow> error option) \<Rightarrow> nat \<Rightarrow> Task" where
  "NewTask f ch = \<lparr>fn = f, c = ch\<rparr>"

text \<open>
  \<^verbatim>\<open>type Worker struct { id int; tasks chan Task; pending int; index int }\<close>
  (the field \<^verbatim>\<open>id\<close> is named \<open>idW\<close>, since \<open>id\<close> is the identity function of HOL).
\<close>

record Worker =
  idW :: int
  tasks :: chanref
  pending :: int
  index :: int

type_synonym addr = nat
type_synonym mem = "addr \<Rightarrow> Worker"
type_synonym Pool = "addr list"
type_synonym hp = "mem \<times> Pool"

section \<open>Pool: the methods of heap.Interface\<close>

definition Pool_Len :: "Pool \<Rightarrow> nat" where
  "Pool_Len p = length p"

text \<open>\<^verbatim>\<open>func (p Pool) Less(i, j int) bool { return p[i].pending < p[j].pending }\<close>\<close>

definition Pool_Less :: "nat \<Rightarrow> nat \<Rightarrow> hp \<Rightarrow> bool option" where
  "Pool_Less i j s = (case s of (m, p) \<Rightarrow>
     if i < length p \<and> j < length p
     then Some (pending (m (p ! i)) < pending (m (p ! j)))
     else None)"

text \<open>
  \<^verbatim>\<open>p[i].index = j; p[j].index = i; p[i], p[j] = p[j], p[i]\<close>: the two writes go
  through the pointers, one after the other, then the two slots are exchanged.
\<close>

definition Pool_Swap :: "nat \<Rightarrow> nat \<Rightarrow> hp \<Rightarrow> hp option" where
  "Pool_Swap i j s = (case s of (m, p) \<Rightarrow>
     if i < length p \<and> j < length p
     then (let m1 = m(p ! i := (m (p ! i))\<lparr>index := int j\<rparr>);
               m2 = m1(p ! j := (m1 (p ! j))\<lparr>index := int i\<rparr>)
           in Some (m2, p[i := p ! j, j := p ! i]))
     else None)"

text \<open>\<^verbatim>\<open>w.index = len(*p); *p = append(*p, w)\<close>\<close>

definition Pool_Push :: "addr \<Rightarrow> hp \<Rightarrow> hp" where
  "Pool_Push w s = (case s of (m, p) \<Rightarrow>
     (m(w := (m w)\<lparr>index := int (length p)\<rparr>), p @ [w]))"

text \<open>\<^verbatim>\<open>n := len(old); x := old[n-1]; *p = old[0 : n-1]; return x\<close>: panics on an empty pool.\<close>

definition Pool_Pop :: "hp \<Rightarrow> (addr \<times> hp) option" where
  "Pool_Pop s = (case s of (m, p) \<Rightarrow>
     if p = [] then None else Some (last p, (m, butlast p)))"

section \<open>container/heap\<close>

text \<open>
  Modelled from the spec: the functions \<^verbatim>\<open>Init\<close>, \<^verbatim>\<open>Push\<close>, \<^verbatim>\<open>Pop\<close>, \<^verbatim>\<open>Remove\<close>,
  \<^verbatim>\<open>up\<close> and \<^verbatim>\<open>down\<close> of Go's package \<^verbatim>\<open>container/heap\<close>, which the source imports and
  which is not under \<^verbatim>\<open>src/\<close>. They follow section 4.1 of the specification (insert at
  the end and sift up while the pending count is less than the parent's; extract the root,
  move the last element there and sift down, exchanging with the smaller child when that
  child is less; remove at an index by exchanging with the last element and sifting in
  the direction the order requires), in the shape of the standard library, and reach the
  pool only through \<open>Pool_Len\<close>, \<open>Pool_Less\<close>, \<open>Pool_Swap\<close>, \<open>Pool_Push\<close> and \<open>Pool_Pop\<close>.
\<close>

text \<open>
  \<^verbatim>\<open>for { i := (j - 1) / 2; if i == j || !h.Less(j, i) { break }; h.Swap(i, j); j = i }\<close>.
  Go's division truncates, so the parent of position 0 is 0.
\<close>

definition parent :: "nat \<Rightarrow> nat" where
  "parent j = (if j = 0 then 0 else (j - 1) div 2)"

function up :: "nat \<Rightarrow> hp \<Rightarrow> hp option" where
  "up j s = (let i = parent j in
     if i = j then Some s
     else (case Pool_Less j i s of
             None \<Rightarrow> None
           | Some b \<Rightarrow>
               if \<not> b then Some s
               else (case Pool_Swap i j s of
                       None \<Rightarrow> None
                     | Some s' \<Rightarrow> up i s')))"
  by pat_completeness auto
termination
  by (relation "measure (\<lambda>(j, s). j)") (auto simp: parent_def split: if_splits)

text \<open>
  \<^verbatim>\<open>for { j1 := 2*i + 1; if j1 >= n { break }; j := j1;
           if j2 := j1 + 1; j2 < n && h.Less(j2, j1) { j = j2 };
           if !h.Less(j, i) { break }; h.Swap(i, j); i = j }; return i > i0\<close>.
  \<open>down_loop\<close> is the loop and gives the last position; \<open>down\<close> adds the comparison.
\<close>

function down_loop :: "nat \<Rightarrow> nat \<Rightarrow> hp \<Rightarrow> (nat \<times> hp) option" where
  "down_loop i n s = (let j1 = 2 * i + 1 in
     if j1 \<ge> n then Some (i, s)
     else (case (if j1 + 1 < n then Pool_Less (j1 + 1) j1 s else Some False) of
             None \<Rightarrow> None
           | Some b2 \<Rightarrow>
               (let j = (if b2 then j1 + 1 else j1) in
                case Pool_Less j i s of
                  None \<Rightarrow> None
                | Some b \<Rightarrow>
                    if \<not> b then Some (i, s)
                    else (case Pool_Swap i j s of
                            None \<Rightarrow> None
                          | Some s' \<Rightarrow> down_loop j n s'))))"
  by pat_completeness auto
termination
  by (relation "measure (\<lambda>(i, n, s). n - i)") (auto split: if_splits)

definition down :: "nat \<Rightarrow> nat \<Rightarrow> hp \<Rightarrow> (bool \<times> hp) option" where
  "down i0 n s = (case down_loop i0 n s of
     None \<Rightarrow> None
   | Some (i, s') \<Rightarrow> Some (i0 < i, s'))"

text \<open>\<^verbatim>\<open>n := h.Len(); for i := n/2 - 1; i >= 0; i-- { down(h, i, n) }\<close>; \<open>k\<close> is \<open>i + 1\<close>.\<close>

fun init_loop :: "nat \<Rightarrow> nat \<Rightarrow> hp \<Rightarrow> hp option" where
  "init_loop 0 n s = Some s"
| "init_loop (Suc k) n s = (case down k n s of
     None \<Rightarrow> None
   | Some (_, s') \<Rightarrow> init_loop k n s')"

definition heap_Init :: "hp \<Rightarrow> hp option" where
  "heap_Init s = init_loop (Pool_Len (snd s) div 2) (Pool_Len (snd s)) s"

text \<open>\<^verbatim>\<open>h.Push(x); up(h, h.Len()-1)\<close>\<close>

definition heap_Push :: "addr \<Rightarrow> hp \<Rightarrow> hp option" where
  "heap_Push x s = (let s1 = Pool_Push x s in up (Pool_Len (snd s1) - 1) s1)"

text \<open>
  \<^verbatim>\<open>n := h.Len() - 1; h.Swap(0, n); down(h, 0, n); return h.Pop()\<close>. On an empty pool
  \<open>n\<close> is \<open>-1\<close> and the exchange panics.
\<close>

definition heap_Pop :: "hp \<Rightarrow> (addr \<times> hp) option" where
  "heap_Pop s =
     (if Pool_Len (snd s) = 0 then None
      else (let n = Pool_Len (snd s) - 1 in
            case Pool_Swap 0 n s of
              None \<Rightarrow> None
            | Some s1 \<Rightarrow>
                (case down 0 n s1 of
                   None \<Rightarrow> None
                 | Some (_, s2) \<Rightarrow> Pool_Pop s2)))"

text \<open>
  \<^verbatim>\<open>n := h.Len() - 1; if n != i { h.Swap(i, n); if !down(h, i, n) { up(h, i) } };
  return h.Pop()\<close>. The index is a Go \<^verbatim>\<open>int\<close>: a negative one is out of range.
\<close>

definition heap_Remove :: "int \<Rightarrow> hp \<Rightarrow> (addr \<times> hp) option" where
  "heap_Remove i s =
     (let n = int (Pool_Len (snd s)) - 1 in
      if n \<noteq> i then
        (if i < 0 \<or> n < 0 then None
         else (case Pool_Swap (nat i) (nat n) s of
                 None \<Rightarrow> None
               | Some s1 \<Rightarrow>
                   (case down (nat i) (nat n) s1 of
                      None \<Rightarrow> None
                    | Some (moved, s2) \<Rightarrow>
                        if \<not> moved
                        then (case up (nat i) s2 of None \<Rightarrow> None | Some s3 \<Rightarrow> Pool_Pop s3)
                        else Pool_Pop s2)))
      else Pool_Pop s)"

section \<open>The platform\<close>

text \<open>
  What the Go run time fixes and the source does not: the width of \<^verbatim>\<open>int\<close> (32 or 64
  bits) and, for each kind of object that \<^verbatim>\<open>New\<close> makes, the largest size that
  \<^verbatim>\<open>make\<close> accepts (it depends on the element size and on the address space).
\<close>

datatype made = ChanOfWorker | ChanOfTask | SliceOfWorker

record platform =
  int_bits :: nat
  make_limit :: "made \<Rightarrow> int"

text \<open>The value of an \<^verbatim>\<open>int\<close> expression: its mathematical value, wrapped to the width.\<close>

definition wrap_int :: "platform \<Rightarrow> int \<Rightarrow> int" where
  "wrap_int pf x = (x + 2 ^ (int_bits pf - 1)) mod 2 ^ int_bits pf - 2 ^ (int_bits pf - 1)"

section \<open>Channels and goroutines\<close>

text \<open>
  A channel is its buffer and the capacity given to \<^verbatim>\<open>make\<close>, the number of goroutines
  that wait to receive from it, and the values received from it so far (oldest first).
  \<^verbatim>\<open>make(chan T, n)\<close> panics when \<open>n\<close> is negative or above the limit of the platform.
  A send hands the value to a waiting receiver when there is one (the buffer is then
  empty), else it puts the value in the buffer when there is room, else the sender is
  suspended (\<open>None\<close>). A receive takes the oldest value of the buffer; on an empty buffer
  the receiver is suspended (\<open>None\<close>). Senders that wait are not kept: in this package a
  suspended sender is the end of the call that sends.
\<close>

record 'a chan =
  buf :: "'a list"
  cap :: nat
  recvq :: nat
  taken :: "'a list"

definition make_chan :: "platform \<Rightarrow> made \<Rightarrow> int \<Rightarrow> 'a chan option" where
  "make_chan pf kind n =
     (if n < 0 \<or> make_limit pf kind < n then None
      else Some \<lparr>buf = [], cap = nat n, recvq = 0, taken = []\<rparr>)"

text \<open>\<^verbatim>\<open>make(Pool, 0, poolSize)\<close>: an empty slice; panics as \<^verbatim>\<open>make\<close> of a channel does.\<close>

definition make_Pool :: "platform \<Rightarrow> int \<Rightarrow> nat list option" where
  "make_Pool pf n = (if n < 0 \<or> make_limit pf SliceOfWorker < n then None else Some [])"

definition send :: "'a \<Rightarrow> 'a chan \<Rightarrow> 'a chan option" where
  "send v ch =
     (if 0 < recvq ch \<and> buf ch = [] then Some (ch\<lparr>recvq := recvq ch - 1, taken := taken ch @ [v]\<rparr>)
      else if length (buf ch) < cap ch then Some (ch\<lparr>buf := buf ch @ [v]\<rparr>)
      else None)"

definition recv :: "'a chan \<Rightarrow> ('a \<times> 'a chan) option" where
  "recv ch = (case buf ch of
     [] \<Rightarrow> None
   | v # vs \<Rightarrow> Some (v, ch\<lparr>buf := vs, taken := taken ch @ [v]\<rparr>))"

text \<open>Every value sent on a channel so far, in the order of the sends.\<close>

definition sent :: "'a chan \<Rightarrow> 'a list" where
  "sent ch = taken ch @ buf ch"

text \<open>
  What a call does: it panics, it is suspended at a channel operation (or stays in a
  callable that never returns), or it returns.
\<close>

datatype panic = MakeSizeOutOfRange | IndexOutOfRange

datatype 'a result = is_Panic: Panic panic | is_Blocked: Blocked | is_Return: Return (ret: 'a)

text \<open>
  The goroutines a \<^verbatim>\<open>go\<close> statement starts: \<^verbatim>\<open>go worker.work(ch)\<close> and
  \<^verbatim>\<open>go balancer.balance(ch)\<close>, each with the channel it is given.
\<close>

datatype goroutine = WorkerLoop addr chanref | BalanceLoop chanref

text \<open>
  \<^verbatim>\<open>type Balancer struct { pool Pool; done chan *Worker; work chan Task }\<close>, together
  with what its pointers reach (the field \<^verbatim>\<open>done\<close> is named \<open>done_chan\<close>, since \<open>done\<close>
  is a keyword): the memory of the workers and the workers' own \<^verbatim>\<open>tasks\<close> channels.
\<close>

record Balancer =
  pool :: Pool
  done_chan :: "addr chan"
  work :: "Task chan"
  workers :: mem
  wtasks :: "nat \<Rightarrow> Task chan"

text \<open>The channels of errors that tasks return on belong to the submitters.\<close>

type_synonym errchans = "nat \<Rightarrow> error chan"

definition get_chan :: "chanref \<Rightarrow> Balancer \<Rightarrow> Task chan" where
  "get_chan r b = (case r of BalancerWork \<Rightarrow> work b | WorkerTasks k \<Rightarrow> wtasks b k)"

definition set_chan :: "chanref \<Rightarrow> Task chan \<Rightarrow> Balancer \<Rightarrow> Balancer" where
  "set_chan r ch b = (case r of
     BalancerWork \<Rightarrow> b\<lparr>work := ch\<rparr>
   | WorkerTasks k \<Rightarrow> b\<lparr>wtasks := (wtasks b)(k := ch)\<rparr>)"

section \<open>Worker\<close>

text \<open>
  One iteration of \<^verbatim>\<open>for task := range tasks { task.c <- task.fn() }\<close> in
  \<^verbatim>\<open>func (w *Worker) work(tasks chan Task)\<close>: receive from the channel given as
  argument, call the function, send what it returns on the task's channel. The line
  \<^verbatim>\<open>//done <- w\<close> is a comment in the source, so nothing is sent on \<^verbatim>\<open>done\<close>.
\<close>

definition work_iter :: "addr \<Rightarrow> chanref \<Rightarrow> Balancer \<times> errchans \<Rightarrow> (Balancer \<times> errchans) result" where
  "work_iter w tasksArg s = (case s of (b, ec) \<Rightarrow>
     (case recv (get_chan tasksArg b) of
        None \<Rightarrow> Blocked
      | Some (task, q) \<Rightarrow>
          (case fn task () of
             None \<Rightarrow> Blocked
           | Some e \<Rightarrow>
               (case send e (ec (c task)) of
                  None \<Rightarrow> Blocked
                | Some ch \<Rightarrow> Return (set_chan tasksArg q b, ec(c task := ch))))))"

section \<open>Balancer\<close>

text \<open>
  \<^verbatim>\<open>New\<close>: the three \<^verbatim>\<open>make\<close> calls in the order of the composite literal,
  \<^verbatim>\<open>heap.Init\<close>, then the loop \<^verbatim>\<open>for i := 0; i < poolSize; i++\<close>, which allocates a
  worker (at a fresh address, here the iteration number, with a fresh channel of capacity
  5000), pushes it on the heap and starts \<^verbatim>\<open>go worker.work(balancer.work)\<close>. The line
  \<^verbatim>\<open>//go balancer.balance(balancer.work)\<close> is a comment in the source. There is no test
  of \<^verbatim>\<open>poolSize\<close>. The result is paired with the goroutines started, in the order of
  their \<^verbatim>\<open>go\<close> statements, also when the call panics.
\<close>

definition zero_Worker :: Worker where
  "zero_Worker = \<lparr>idW = 0, tasks = BalancerWork, pending = 0, index = 0\<rparr>"

function New_loop :: "platform \<Rightarrow> int \<Rightarrow> int \<Rightarrow> goroutine list \<times> Balancer \<Rightarrow> goroutine list \<times> Balancer result" where
  "New_loop pf i poolSize gb = (case gb of (gs, b) \<Rightarrow>
     (if i < poolSize then
        (case make_chan pf ChanOfTask 5000 of
           None \<Rightarrow> (gs, Panic MakeSizeOutOfRange)
         | Some ch \<Rightarrow>
             (let a = nat i;
                  b1 = b\<lparr>workers := (workers b)(a := \<lparr>idW = i, tasks = WorkerTasks a, pending = 0, index = 0\<rparr>),
                         wtasks := (wtasks b)(a := ch)\<rparr>
              in case heap_Push a (workers b1, pool b1) of
                   None \<Rightarrow> (gs, Panic IndexOutOfRange)
                 | Some (m, p) \<Rightarrow>
                     New_loop pf (i + 1) poolSize
                       (gs @ [WorkerLoop a BalancerWork], b1\<lparr>workers := m, pool := p\<rparr>)))
      else (gs, Return b)))"
  by pat_completeness auto
termination
  by (relation "measure (\<lambda>(pf, i, poolSize, gb). nat (poolSize - i))") auto

definition New :: "platform \<Rightarrow> int \<Rightarrow> goroutine list \<times> Balancer result" where
  "New pf poolSize =
     (case make_chan pf ChanOfWorker poolSize of
        None \<Rightarrow> ([], Panic MakeSizeOutOfRange)
      | Some d \<Rightarrow>
          (case make_chan pf ChanOfTask (wrap_int pf (poolSize * 10)) of
             None \<Rightarrow> ([], Panic MakeSizeOutOfRange)
           | Some wk \<Rightarrow>
               (case make_Pool pf poolSize of
                  None \<Rightarrow> ([], Panic MakeSizeOutOfRange)
                | Some p0 \<Rightarrow>
                    (let b0 = \<lparr>pool = p0, done_chan = d, work = wk, workers = (\<lambda>_. zero_Worker),
                               wtasks = (\<lambda>_. \<lparr>buf = [], cap = 0, recvq = 0, taken = []\<rparr>)\<rparr>
                     in case heap_Init (workers b0, pool b0) of
                          None \<Rightarrow> ([], Panic IndexOutOfRange)
                        | Some (m, p) \<Rightarrow> New_loop pf 0 poolSize ([], b0\<lparr>workers := m, pool := p\<rparr>)))))"

text \<open>\<^verbatim>\<open>func (b *Balancer) Push(work Task) { b.work <- work }\<close>\<close>

definition Balancer_Push :: "Task \<Rightarrow> Balancer \<Rightarrow> Balancer result" where
  "Balancer_Push t b = (case send t (work b) of
     None \<Rightarrow> Blocked
   | Some ch \<Rightarrow> Return (b\<lparr>work := ch\<rparr>))"

text \<open>
  \<^verbatim>\<open>w := heap.Pop(&b.pool).(*Worker); w.tasks <- task; w.pending++; heap.Push(&b.pool, w)\<close>
\<close>

definition dispatch :: "platform \<Rightarrow> Task \<Rightarrow> Balancer \<Rightarrow> Balancer result" where
  "dispatch pf task b =
     (case heap_Pop (workers b, pool b) of
        None \<Rightarrow> Panic IndexOutOfRange
      | Some (w, (m1, p1)) \<Rightarrow>
          (case send task (get_chan (tasks (m1 w)) b) of
             None \<Rightarrow> Blocked
           | Some ch \<Rightarrow>
               (let b1 = set_chan (tasks (m1 w)) ch b;
                    m2 = m1(w := (m1 w)\<lparr>pending := wrap_int pf (pending (m1 w) + 1)\<rparr>)
                in case heap_Push w (m2, p1) of
                     None \<Rightarrow> Panic IndexOutOfRange
                   | Some (m3, p3) \<Rightarrow> Return (b1\<lparr>workers := m3, pool := p3\<rparr>))))"

text \<open>\<^verbatim>\<open>w.pending--; heap.Remove(&b.pool, w.index); heap.Push(&b.pool, w)\<close>\<close>

definition completed :: "platform \<Rightarrow> addr \<Rightarrow> Balancer \<Rightarrow> Balancer result" where
  "completed pf w b =
     (let m1 = (workers b)(w := (workers b w)\<lparr>pending := wrap_int pf (pending (workers b w) - 1)\<rparr>)
      in case heap_Remove (index (m1 w)) (m1, pool b) of
           None \<Rightarrow> Panic IndexOutOfRange
         | Some (_, s2) \<Rightarrow>
             (case heap_Push w s2 of
                None \<Rightarrow> Panic IndexOutOfRange
              | Some (m3, p3) \<Rightarrow> Return (b\<lparr>workers := m3, pool := p3\<rparr>)))"

text \<open>
  One iteration of \<^verbatim>\<open>for { select { case task := <-work: b.dispatch(task);
  case w := <-b.done: b.completed(w) } }\<close>, for the case that \<^verbatim>\<open>select\<close> takes.
\<close>

datatype selected = FromWork | FromDone

definition balance_iter :: "platform \<Rightarrow> chanref \<Rightarrow> selected \<Rightarrow> Balancer \<Rightarrow> Balancer result" where
  "balance_iter pf workArg sel b = (case sel of
     FromWork \<Rightarrow>
       (case recv (get_chan workArg b) of
          None \<Rightarrow> Blocked
        | Some (task, q) \<Rightarrow> dispatch pf task (set_chan workArg q b))
   | FromDone \<Rightarrow>
       (case recv (done_chan b) of
          None \<Rightarrow> Blocked
        | Some (w, q) \<Rightarrow> completed pf w (b\<lparr>done_chan := q\<rparr>)))"

text \<open>
  A sequence of steps of the dispatcher: each is the dispatch of a task or the completion
  of a worker. The sequence stops at the first step that does not return.
\<close>

datatype step = Dispatch Task | Completed addr

fun run :: "platform \<Rightarrow> step list \<Rightarrow> Balancer \<Rightarrow> Balancer result" where
  "run pf [] b = Return b"
| "run pf (Dispatch t # evs) b = (case dispatch pf t b of
     Return b' \<Rightarrow> run pf evs b' | Panic e \<Rightarrow> Panic e | Blocked \<Rightarrow> Blocked)"
| "run pf (Completed w # evs) b = (case completed pf w b of
     Return b' \<Rightarrow> run pf evs b' | Panic e \<Rightarrow> Panic e | Blocked \<Rightarrow> Blocked)"

text \<open>
  A platform of Go: \<^verbatim>\<open>int\<close> has 32 or 64 bits, and \<^verbatim>\<open>make\<close> accepts at least the
  size 5000 that \<^verbatim>\<open>New\<close> asks for each worker.
\<close>

definition go_platform :: "platform \<Rightarrow> bool" where
  "go_platform pf = ((int_bits pf = 32 \<or> int_bits pf = 64) \<and>
     5000 \<le> make_limit pf ChanOfWorker \<and> 5000 \<le> make_limit pf ChanOfTask \<and>
     5000 \<le> make_limit pf SliceOfWorker)"

text \<open>A platform with 64 bits, for the concrete runs below.\<close>

definition platform64 :: platform where
  "platform64 = \<lparr>int_bits = 64, make_limit = (\<lambda>_. 1000000000000)\<rparr>"

section \<open>Invariants of the pool\<close>

text \<open>
  The pending counts of the pool, position by position; the heap order of the first \<open>n\<close>
  positions; index consistency (the worker at position \<open>k\<close> has \<open>index = k\<close>, which is
  \<^verbatim>\<open>pool[w.index] == w\<close> for every worker of a pool without repetition).
\<close>

definition keys :: "hp \<Rightarrow> int list" where
  "keys s = map (\<lambda>a. pending (fst s a)) (snd s)"

definition heap_upto :: "nat \<Rightarrow> int list \<Rightarrow> bool" where
  "heap_upto n xs = (\<forall>k\<in>{1..<n}. xs ! parent k \<le> xs ! k)"

definition heap_order :: "hp \<Rightarrow> bool" where
  "heap_order s = heap_upto (length (snd s)) (keys s)"

definition index_consistent :: "hp \<Rightarrow> bool" where
  "index_consistent s = (\<forall>k\<in>{0..<length (snd s)}. index (fst s (snd s ! k)) = int k)"

definition same_fields :: "mem \<Rightarrow> mem \<Rightarrow> bool" where
  "same_fields m m' = (\<forall>a. idW (m' a) = idW (m a) \<and> tasks (m' a) = tasks (m a) \<and> pending (m' a) = pending (m a))"

definition reordered :: "hp \<Rightarrow> hp \<Rightarrow> bool" where
  "reordered s s' = (length (snd s') = length (snd s) \<and> mset (snd s') = mset (snd s) \<and>
     same_fields (fst s) (fst s') \<and> (\<forall>a. a \<notin> set (snd s) \<longrightarrow> fst s' a = fst s a) \<and>
     (index_consistent s \<longrightarrow> index_consistent s'))"

definition up_inv :: "nat \<Rightarrow> nat \<Rightarrow> int list \<Rightarrow> bool" where
  "up_inv n j xs = ((\<forall>k\<in>{1..<n}. k \<noteq> j \<longrightarrow> xs ! parent k \<le> xs ! k) \<and>
     (\<forall>k\<in>{1..<n}. parent k = j \<and> 0 < j \<longrightarrow> xs ! parent j \<le> xs ! k))"

definition down_inv :: "nat \<Rightarrow> nat \<Rightarrow> int list \<Rightarrow> bool" where
  "down_inv n i xs = ((\<forall>k\<in>{1..<n}. parent k \<noteq> i \<longrightarrow> xs ! parent k \<le> xs ! k) \<and>
     (\<forall>k\<in>{1..<n}. parent k = i \<and> 0 < i \<longrightarrow> xs ! parent i \<le> xs ! k))"


text \<open>The child that one iteration of \<open>down_loop\<close> compares with position \<open>i\<close>.\<close>

definition pick :: "nat \<Rightarrow> nat \<Rightarrow> int list \<Rightarrow> nat" where
  "pick i n xs = (if 2 * i + 2 < n \<and> xs ! (2 * i + 2) < xs ! (2 * i + 1) then 2 * i + 2 else 2 * i + 1)"


definition hole_inv :: "nat \<Rightarrow> nat \<Rightarrow> int list \<Rightarrow> bool" where
  "hole_inv n i xs = ((\<forall>k\<in>{1..<n}. k \<noteq> i \<and> parent k \<noteq> i \<longrightarrow> xs ! parent k \<le> xs ! k) \<and>
     (\<forall>k\<in>{1..<n}. parent k = i \<and> 0 < i \<longrightarrow> xs ! parent i \<le> xs ! k))"

(*PROOFS*)
section \<open>Sifting\<close>

declare up.simps [simp del] down_loop.simps [simp del]

lemma parent_less: "0 < k \<Longrightarrow> parent k < k"
  by (simp add: parent_def)

lemma parent_eq_self: "parent j = j \<longleftrightarrow> j = 0"
proof (cases "j = 0")
  case True
  then show ?thesis by (simp add: parent_def)
next
  case False
  then have "(j - 1) div 2 < j" by arith
  then show ?thesis using False by (simp add: parent_def)
qed

lemma parent_eq_iff: "0 < k \<Longrightarrow> parent k = i \<longleftrightarrow> (k = 2 * i + 1 \<or> k = 2 * i + 2)"
  by (auto simp: parent_def)

lemma index_consistent_distinct:
  assumes "index_consistent (m, p)" shows "distinct p"
proof -
  have "\<And>i j. i < length p \<Longrightarrow> j < length p \<Longrightarrow> p ! i = p ! j \<Longrightarrow> i = j"
  proof -
    fix i j assume "i < length p" "j < length p" "p ! i = p ! j"
    have "index (m (p ! i)) = int i"
      using assms \<open>i < length p\<close> by (simp add: index_consistent_def)
    moreover have "index (m (p ! j)) = int j"
      using assms \<open>j < length p\<close> by (simp add: index_consistent_def)
    ultimately show "i = j" using \<open>p ! i = p ! j\<close> by (metis of_nat_eq_iff)
  qed
  then show ?thesis unfolding distinct_conv_nth by blast
qed

lemma same_fields_refl: "same_fields m m" by (simp add: same_fields_def)
lemma same_fields_trans: "same_fields m m' \<Longrightarrow> same_fields m' m'' \<Longrightarrow> same_fields m m''"
  by (simp add: same_fields_def)

lemma reordered_refl: "reordered s s"
  by (simp add: reordered_def same_fields_refl)

lemma reordered_trans:
  assumes a: "reordered s s'" and b: "reordered s' s''"
  shows "reordered s s''"
proof -
  have st: "set (snd s') = set (snd s)"
    using a by (metis reordered_def set_mset_mset)
  have "length (snd s'') = length (snd s)" using a b by (simp add: reordered_def)
  moreover have "mset (snd s'') = mset (snd s)" using a b by (simp add: reordered_def)
  moreover have "same_fields (fst s) (fst s'')"
    using a b same_fields_trans[of "fst s" "fst s'" "fst s''"] by (simp add: reordered_def)
  moreover have "\<forall>a. a \<notin> set (snd s) \<longrightarrow> fst s'' a = fst s a"
    using a b st by (simp add: reordered_def)
  moreover have "index_consistent s \<longrightarrow> index_consistent s''"
    using a b by (simp add: reordered_def)
  ultimately show ?thesis by (simp add: reordered_def)
qed

lemma keys_same: "reordered s s' \<Longrightarrow> length (keys s') = length (keys s)"
  by (simp add: reordered_def keys_def)

lemma Pool_Less_Some:
  "i < length (snd s) \<Longrightarrow> j < length (snd s) \<Longrightarrow> Pool_Less i j s = Some (keys s ! i < keys s ! j)"
  by (cases s) (simp add: Pool_Less_def keys_def)

lemma Pool_Swap_Some:
  assumes "i < length (snd s)" "j < length (snd s)"
  shows "\<exists>s'. Pool_Swap i j s = Some s' \<and> snd s' = (snd s)[i := snd s ! j, j := snd s ! i] \<and>
          keys s' = (keys s)[i := keys s ! j, j := keys s ! i] \<and> reordered s s'"
proof -
  obtain m p where s: "s = (m, p)" by (cases s)
  define m1 where "m1 = m(p ! i := (m (p ! i))\<lparr>index := int j\<rparr>)"
  define m2 where "m2 = m1(p ! j := (m1 (p ! j))\<lparr>index := int i\<rparr>)"
  define p' where "p' = p[i := p ! j, j := p ! i]"
  have sw: "Pool_Swap i j s = Some (m2, p')"
    using assms by (simp add: s Pool_Swap_def m1_def m2_def p'_def Let_def)
  have sf: "same_fields m m2"
    by (simp add: same_fields_def m1_def m2_def)
  have pend: "\<And>a. pending (m2 a) = pending (m a)"
    using sf by (simp add: same_fields_def)
  have k: "keys (m2, p') = (keys s)[i := keys s ! j, j := keys s ! i]"
    using assms by (simp add: keys_def s p'_def pend map_update)
  have ms: "mset p' = mset p"
    using assms unfolding p'_def s by (simp add: mset_swap)
  have out: "\<forall>a. a \<notin> set p \<longrightarrow> m2 a = m a"
    using assms by (auto simp: m1_def m2_def s)
  have ic: "index_consistent (m2, p')" if ic0: "index_consistent (m, p)"
  proof -
    have d: "distinct p" using ic0 by (rule index_consistent_distinct)
    have neq: "\<And>k l. k < length p \<Longrightarrow> l < length p \<Longrightarrow> k \<noteq> l \<Longrightarrow> p ! k \<noteq> p ! l"
      using d by (simp add: nth_eq_iff_index_eq)
    show ?thesis
      unfolding index_consistent_def
    proof (intro ballI)
      fix k assume "k \<in> {0..<length (snd (m2, p'))}"
      then have kl: "k < length p" by (simp add: p'_def)
      consider "k = j" | "k \<noteq> j" "k = i" | "k \<noteq> j" "k \<noteq> i" by blast
      then show "index (fst (m2, p') (snd (m2, p') ! k)) = int k"
      proof cases
        case 1
        then show ?thesis using assms s neq[of i j] by (auto simp add: p'_def m2_def m1_def)
      next
        case 2
        then show ?thesis using assms s neq[of i j] by (auto simp add: p'_def m2_def m1_def)
      next
        case 3
        then show ?thesis using assms s kl neq[of k j] neq[of k i] ic0
          by (auto simp add: p'_def m2_def m1_def index_consistent_def)
      qed
    qed
  qed
  have "reordered s (m2, p')"
    unfolding reordered_def using sf ms out ic by (simp add: s p'_def)
  then show ?thesis using sw k by (auto simp: p'_def s)
qed


lemma nth_exchange:
  "i < length xs \<Longrightarrow> j < length xs \<Longrightarrow>
   xs[i := a, j := b] ! k = (if k = j then b else if k = i then a else xs ! k)"
  by (simp add: nth_list_update)

lemma up_inv_done:
  assumes "up_inv n j xs" "j = 0 \<or> n \<le> j \<or> xs ! parent j \<le> xs ! j"
  shows "heap_upto n xs"
  unfolding heap_upto_def
proof
  fix k assume k: "k \<in> {1..<n}"
  show "xs ! parent k \<le> xs ! k"
  proof (cases "k = j")
    case True
    then show ?thesis using assms(2) k by auto
  next
    case False
    then show ?thesis using assms(1) k by (simp add: up_inv_def)
  qed
qed

lemma heap_upto_up_inv:
  assumes "heap_upto n xs" shows "up_inv n j xs"
proof -
  have h: "\<And>k. 1 \<le> k \<Longrightarrow> k < n \<Longrightarrow> xs ! parent k \<le> xs ! k"
    using assms by (simp add: heap_upto_def)
  have "xs ! parent j \<le> xs ! k" if k: "1 \<le> k" "k < n" "parent k = j" "0 < j" for k
  proof -
    have "j < k" using parent_less[of k] k by simp
    then have "xs ! parent j \<le> xs ! j" using h[of j] k by simp
    moreover have "xs ! j \<le> xs ! k" using h[OF k(1,2)] k(3) by simp
    ultimately show ?thesis by simp
  qed
  then show ?thesis using h by (simp add: up_inv_def)
qed

lemma up_inv_step:
  assumes inv: "up_inv n j xs" and j: "0 < j" "j < n" "n \<le> length xs"
    and lt: "xs ! j < xs ! parent j"
  shows "up_inv n (parent j) (xs[parent j := xs ! j, j := xs ! parent j])"
proof -
  define i where "i = parent j"
  define ys where "ys = xs[i := xs ! j, j := xs ! i]"
  have ij: "i < j" using j by (simp add: i_def parent_less)
  have c1: "\<And>k. 1 \<le> k \<Longrightarrow> k < n \<Longrightarrow> k \<noteq> j \<Longrightarrow> xs ! parent k \<le> xs ! k"
    using inv by (simp add: up_inv_def)
  have c2: "\<And>k. 1 \<le> k \<Longrightarrow> k < n \<Longrightarrow> parent k = j \<Longrightarrow> xs ! i \<le> xs ! k"
    using inv j by (simp add: up_inv_def i_def)
  have ys: "\<And>k. ys ! k = (if k = j then xs ! i else if k = i then xs ! j else xs ! k)"
    unfolding ys_def using ij j by (intro nth_exchange) simp_all
  have "ys ! parent k \<le> ys ! k" if k: "1 \<le> k" "k < n" "k \<noteq> i" for k
  proof (cases "k = j")
    case True
    then show ?thesis using lt ij by (simp add: ys i_def)
  next
    case kj: False
    have pk: "parent k < k" using k by (simp add: parent_less)
    show ?thesis
    proof (cases "parent k = j")
      case True
      then show ?thesis using c2[OF k(1,2) True] kj k ij by (simp add: ys)
    next
      case pj: False
      show ?thesis
      proof (cases "parent k = i")
        case True
        then show ?thesis using c1[OF k(1,2) kj] lt kj k pj by (simp add: ys i_def)
      next
        case False
        then show ?thesis using c1[OF k(1,2) kj] kj k pj by (simp add: ys)
      qed
    qed
  qed
  moreover have "ys ! parent i \<le> ys ! k" if k: "1 \<le> k" "k < n" "parent k = i" "0 < i" for k
  proof -
    have pi: "parent i < i" using k by (simp add: parent_less)
    have i1: "1 \<le> i" "i < n" "i \<noteq> j" using k ij j by simp_all
    have a: "ys ! parent i = xs ! parent i" using pi ij by (simp add: ys)
    have b: "xs ! parent i \<le> xs ! i" using c1[OF i1] .
    have ki: "k \<noteq> i" using k parent_less[of k] by auto
    show ?thesis
    proof (cases "k = j")
      case True
      then show ?thesis using a b by (simp add: ys)
    next
      case False
      then show ?thesis using a b c1[OF k(1,2) False] k(3) ki by (simp add: ys)
    qed
  qed
  ultimately show ?thesis
    unfolding up_inv_def ys_def i_def by auto
qed

lemma down_inv_done:
  assumes "down_inv n i xs"
    and "\<forall>k\<in>{1..<n}. parent k = i \<longrightarrow> xs ! i \<le> xs ! k"
  shows "heap_upto n xs"
  unfolding heap_upto_def
proof
  fix k assume k: "k \<in> {1..<n}"
  show "xs ! parent k \<le> xs ! k"
  proof (cases "parent k = i")
    case True
    then show ?thesis using assms(2) k by auto
  next
    case False
    then show ?thesis using assms(1) k by (simp add: down_inv_def)
  qed
qed

lemma heap_upto_down_inv:
  assumes "heap_upto n xs" shows "down_inv n i xs"
proof -
  have h: "\<And>k. 1 \<le> k \<Longrightarrow> k < n \<Longrightarrow> xs ! parent k \<le> xs ! k"
    using assms by (simp add: heap_upto_def)
  have "xs ! parent i \<le> xs ! k" if k: "1 \<le> k" "k < n" "parent k = i" "0 < i" for k
  proof -
    have "i < k" using parent_less[of k] k by simp
    then have "xs ! parent i \<le> xs ! i" using h[of i] k by simp
    moreover have "xs ! i \<le> xs ! k" using h[OF k(1,2)] k(3) by simp
    ultimately show ?thesis by simp
  qed
  then show ?thesis using h by (simp add: down_inv_def)
qed

lemma down_inv_step:
  assumes inv: "down_inv n i xs" and j: "parent j = i" "0 < j" "j < n" "n \<le> length xs"
    and lt: "xs ! j < xs ! i"
    and least: "\<forall>k\<in>{1..<n}. parent k = i \<longrightarrow> xs ! j \<le> xs ! k"
  shows "down_inv n j (xs[i := xs ! j, j := xs ! i])"
proof -
  define ys where "ys = xs[i := xs ! j, j := xs ! i]"
  have ij: "i < j" using j parent_less[of j] by simp
  have c1: "\<And>k. 1 \<le> k \<Longrightarrow> k < n \<Longrightarrow> parent k \<noteq> i \<Longrightarrow> xs ! parent k \<le> xs ! k"
    using inv by (simp add: down_inv_def)
  have c2: "\<And>k. 1 \<le> k \<Longrightarrow> k < n \<Longrightarrow> parent k = i \<Longrightarrow> 0 < i \<Longrightarrow> xs ! parent i \<le> xs ! k"
    using inv by (simp add: down_inv_def)
  have c3: "\<And>k. 1 \<le> k \<Longrightarrow> k < n \<Longrightarrow> parent k = i \<Longrightarrow> xs ! j \<le> xs ! k"
    using least by simp
  have ys: "\<And>k. ys ! k = (if k = j then xs ! i else if k = i then xs ! j else xs ! k)"
    unfolding ys_def using ij j by (intro nth_exchange) simp_all
  have "ys ! parent k \<le> ys ! k" if k: "1 \<le> k" "k < n" "parent k \<noteq> j" for k
  proof -
    have pk: "parent k < k" using k by (simp add: parent_less)
    show ?thesis
    proof (cases "parent k = i")
      case True
      have "k \<noteq> i" using pk True by simp
      then show ?thesis using c3[OF k(1,2) True] True lt ij by (simp add: ys)
    next
      case pi: False
      have kj: "k \<noteq> j" using pi j by auto
      show ?thesis
      proof (cases "k = i")
        case True
        have i0: "0 < i" using k True by simp
        have "parent i \<noteq> i" "parent i \<noteq> j" using parent_less[OF i0] ij by simp_all
        then show ?thesis using True c2[of j] j i0 kj by (simp add: ys)
      next
        case False
        then show ?thesis using c1[OF k(1,2) pi] pi kj k(3) by (simp add: ys)
      qed
    qed
  qed
  moreover have "ys ! parent j \<le> ys ! k" if k: "1 \<le> k" "k < n" "parent k = j" for k
  proof -
    have pk: "parent k < k" using k(1) by (simp add: parent_less)
    have "parent k \<noteq> i" using k ij by simp
    then have "xs ! j \<le> xs ! k" using c1[OF k(1,2)] k(3) by simp
    moreover have "k \<noteq> j" "k \<noteq> i" using pk k ij by auto
    ultimately show ?thesis using j(1) ij by (simp add: ys)
  qed
  ultimately show ?thesis
    unfolding down_inv_def ys_def by auto
qed


lemma up_reordered:
  "j < length (snd s) \<Longrightarrow>
   \<exists>s'. up j s = Some s' \<and> reordered s s' \<and> (\<forall>k. j < k \<longrightarrow> snd s' ! k = snd s ! k)"
proof (induction j s rule: up.induct)
  case (1 j s)
  show ?case
  proof (cases "parent j = j")
    case True
    then show ?thesis by (subst up.simps) (simp add: reordered_refl)
  next
    case False
    then have j0: "0 < j" by (simp add: parent_eq_self)
    then have ij: "parent j < j" by (rule parent_less)
    then have il: "parent j < length (snd s)" using "1.prems" by simp
    have less: "Pool_Less j (parent j) s = Some (keys s ! j < keys s ! parent j)"
      using "1.prems" il by (rule Pool_Less_Some)
    show ?thesis
    proof (cases "keys s ! j < keys s ! parent j")
      case nb: False
      then show ?thesis using False less by (subst up.simps) (simp add: reordered_refl)
    next
      case b: True
      obtain s1 where sw: "Pool_Swap (parent j) j s = Some s1"
        and p1: "snd s1 = (snd s)[parent j := snd s ! j, j := snd s ! parent j]"
        and r1: "reordered s s1"
        using Pool_Swap_Some[OF il "1.prems"] by blast
      have il1: "parent j < length (snd s1)" using il r1 by (simp add: reordered_def)
      from "1.IH"[OF refl False less _ sw il1] b
      obtain s' where u: "up (parent j) s1 = Some s'" and r2: "reordered s1 s'"
        and fr: "\<forall>k. parent j < k \<longrightarrow> snd s' ! k = snd s1 ! k" by auto
      have "up j s = Some s'"
        using False less b sw u by (subst up.simps) simp
      moreover have "reordered s s'" using r1 r2 by (rule reordered_trans)
      moreover have "\<forall>k. j < k \<longrightarrow> snd s' ! k = snd s ! k"
        using fr ij p1 by auto
      ultimately show ?thesis by blast
    qed
  qed
qed

lemma up_heap:
  "j < n \<Longrightarrow> n \<le> length (snd s) \<Longrightarrow> up_inv n j (keys s) \<Longrightarrow> up j s = Some s' \<Longrightarrow>
   heap_upto n (keys s')"
proof (induction j s rule: up.induct)
  case (1 j s)
  have len: "length (keys s) = length (snd s)" by (simp add: keys_def)
  show ?case
  proof (cases "parent j = j")
    case True
    then have "s' = s" using "1.prems"(4) by (subst (asm) up.simps) simp
    moreover have "j = 0" using True by (simp add: parent_eq_self)
    ultimately show ?thesis using up_inv_done[OF "1.prems"(3)] by simp
  next
    case False
    then have j0: "0 < j" by (simp add: parent_eq_self)
    then have ij: "parent j < j" by (rule parent_less)
    have jl: "j < length (snd s)" using "1.prems" by simp
    then have il: "parent j < length (snd s)" using ij by simp
    have less: "Pool_Less j (parent j) s = Some (keys s ! j < keys s ! parent j)"
      using jl il by (rule Pool_Less_Some)
    show ?thesis
    proof (cases "keys s ! j < keys s ! parent j")
      case nb: False
      then have "s' = s" using "1.prems"(4) False less by (subst (asm) up.simps) simp
      then show ?thesis using up_inv_done[OF "1.prems"(3)] nb by simp
    next
      case b: True
      obtain s1 where sw: "Pool_Swap (parent j) j s = Some s1"
        and k1: "keys s1 = (keys s)[parent j := keys s ! j, j := keys s ! parent j]"
        and r1: "reordered s s1"
        using Pool_Swap_Some[OF il jl] by blast
      have u: "up (parent j) s1 = Some s'"
        using "1.prems"(4) False less b sw by (subst (asm) up.simps) simp
      have "up_inv n (parent j) (keys s1)"
        unfolding k1 using "1.prems" j0 b len by (intro up_inv_step) simp_all
      moreover have "n \<le> length (snd s1)" using r1 "1.prems" by (simp add: reordered_def)
      moreover have "parent j < n" using ij "1.prems" by simp
      ultimately show ?thesis
        using "1.IH"[OF refl False less _ sw _ _ _ u] b by simp
    qed
  qed
qed


lemma pick_props:
  assumes "2 * i + 1 < n"
  shows "parent (pick i n xs) = i" "0 < pick i n xs" "pick i n xs < n" "i < pick i n xs"
    "\<forall>k\<in>{1..<n}. parent k = i \<longrightarrow> xs ! pick i n xs \<le> xs ! k"
proof -
  show "parent (pick i n xs) = i" by (simp add: pick_def parent_def)
  show "0 < pick i n xs" by (simp add: pick_def)
  show "pick i n xs < n" using assms by (simp add: pick_def)
  show "i < pick i n xs" by (simp add: pick_def)
  show "\<forall>k\<in>{1..<n}. parent k = i \<longrightarrow> xs ! pick i n xs \<le> xs ! k"
  proof (intro ballI impI)
    fix k assume k: "k \<in> {1..<n}" "parent k = i"
    then have "k = 2 * i + 1 \<or> k = 2 * i + 2" using parent_eq_iff[of k i] by simp
    then show "xs ! pick i n xs \<le> xs ! k" using k(1) by (auto simp: pick_def)
  qed
qed

lemma down_loop_unfold:
  assumes "n \<le> length (snd s)"
  shows "down_loop i n s =
    (if n \<le> 2 * i + 1 then Some (i, s)
     else if \<not> keys s ! pick i n (keys s) < keys s ! i then Some (i, s)
     else (case Pool_Swap i (pick i n (keys s)) s of None \<Rightarrow> None
           | Some s' \<Rightarrow> down_loop (pick i n (keys s)) n s'))"
proof (cases "n \<le> 2 * i + 1")
  case True
  then show ?thesis by (subst down_loop.simps) simp
next
  case False
  then have j1: "2 * i + 1 < length (snd s)" "i < length (snd s)" using assms by simp_all
  have l1: "Pool_Less (2 * i + 1) i s = Some (keys s ! (2 * i + 1) < keys s ! i)"
    using j1 by (intro Pool_Less_Some) simp_all
  show ?thesis
  proof (cases "2 * i + 2 < n")
    case True
    then have j2: "2 * i + 2 < length (snd s)" using assms by simp
    have l2: "Pool_Less (2 * i + 2) (2 * i + 1) s = Some (keys s ! (2 * i + 2) < keys s ! (2 * i + 1))"
      using j2 j1 by (intro Pool_Less_Some) simp_all
    have l3: "Pool_Less (2 * i + 2) i s = Some (keys s ! (2 * i + 2) < keys s ! i)"
      using j2 j1 by (intro Pool_Less_Some) simp_all
    show ?thesis
    proof (cases "keys s ! (2 * i + 2) < keys s ! (2 * i + 1)")
      case b2: True
      then have pk: "pick i n (keys s) = Suc (Suc (2 * i))" using True by (simp add: pick_def)
      show ?thesis unfolding pk
        using False True l2 l3 b2 by (subst down_loop.simps) (simp add: Let_def)
    next
      case b2: False
      then have pk: "pick i n (keys s) = Suc (2 * i)" by (simp add: pick_def)
      show ?thesis unfolding pk
        using False True l1 l2 b2 by (subst down_loop.simps) (simp add: Let_def)
    qed
  next
    case nt: False
    then have pk: "pick i n (keys s) = Suc (2 * i)" by (simp add: pick_def)
    show ?thesis unfolding pk
      using False nt l1
      by (subst down_loop.simps) (simp add: Let_def)
  qed
qed

lemma down_loop_reordered:
  "n \<le> length (snd s) \<Longrightarrow>
   \<exists>i' s'. down_loop i n s = Some (i', s') \<and> i \<le> i' \<and> reordered s s' \<and>
     (\<forall>k. n \<le> k \<longrightarrow> snd s' ! k = snd s ! k)"
proof (induction "n - i" arbitrary: i s rule: less_induct)
  case less
  let ?j = "pick i n (keys s)"
  show ?case
  proof (cases "n \<le> 2 * i + 1 \<or> \<not> keys s ! ?j < keys s ! i")
    case True
    then have "down_loop i n s = Some (i, s)"
      using less.prems by (auto simp: down_loop_unfold)
    then show ?thesis by (simp add: reordered_refl)
  next
    case False
    then have c: "2 * i + 1 < n" "keys s ! ?j < keys s ! i" by simp_all
    note pp = pick_props[OF c(1), of "keys s"]
    have il: "i < length (snd s)" "?j < length (snd s)" using c(1) pp(3) less.prems by simp_all
    obtain s1 where sw: "Pool_Swap i ?j s = Some s1"
      and p1: "snd s1 = (snd s)[i := snd s ! ?j, ?j := snd s ! i]"
      and r1: "reordered s s1"
      using Pool_Swap_Some[OF il] by blast
    have n1: "n \<le> length (snd s1)" using r1 less.prems by (simp add: reordered_def)
    have "n - ?j < n - i" using pp(3,4) by simp
    from less.hyps[OF this n1]
    obtain i' s' where d: "down_loop ?j n s1 = Some (i', s')" and le: "?j \<le> i'"
      and r2: "reordered s1 s'" and fr: "\<forall>k. n \<le> k \<longrightarrow> snd s' ! k = snd s1 ! k" by blast
    have "down_loop i n s = Some (i', s')"
      using c sw d less.prems by (simp add: down_loop_unfold)
    moreover have "i \<le> i'" using le pp(4) by simp
    moreover have "reordered s s'" using r1 r2 by (rule reordered_trans)
    moreover have "\<forall>k. n \<le> k \<longrightarrow> snd s' ! k = snd s ! k"
      using fr p1 pp(3) c(1) by auto
    ultimately show ?thesis by blast
  qed
qed

lemma down_loop_heap:
  "n \<le> length (snd s) \<Longrightarrow> down_inv n i (keys s) \<Longrightarrow> down_loop i n s = Some (i', s') \<Longrightarrow>
   heap_upto n (keys s')"
proof (induction "n - i" arbitrary: i s rule: less_induct)
  case less
  let ?j = "pick i n (keys s)"
  have len: "length (keys s) = length (snd s)" by (simp add: keys_def)
  show ?case
  proof (cases "n \<le> 2 * i + 1")
    case True
    then have "s' = s" using less.prems by (simp add: down_loop_unfold)
    moreover have "\<forall>k\<in>{1..<n}. parent k = i \<longrightarrow> keys s ! i \<le> keys s ! k"
      using True parent_eq_iff by auto
    ultimately show ?thesis using down_inv_done[OF less.prems(2)] by simp
  next
    case c1: False
    then have c: "2 * i + 1 < n" by simp
    note pp = pick_props[OF c, of "keys s"]
    show ?thesis
    proof (cases "keys s ! ?j < keys s ! i")
      case False
      then have "s' = s" using less.prems c1 by (simp add: down_loop_unfold)
      moreover have "\<forall>k\<in>{1..<n}. parent k = i \<longrightarrow> keys s ! i \<le> keys s ! k"
        using pp(5) False by force
      ultimately show ?thesis using down_inv_done[OF less.prems(2)] by simp
    next
      case True
      have il: "i < length (snd s)" "?j < length (snd s)" using c pp(3) less.prems by simp_all
      obtain s1 where sw: "Pool_Swap i ?j s = Some s1"
        and k1: "keys s1 = (keys s)[i := keys s ! ?j, ?j := keys s ! i]"
        and r1: "reordered s s1"
        using Pool_Swap_Some[OF il] by blast
      have n1: "n \<le> length (snd s1)" using r1 less.prems by (simp add: reordered_def)
      have d: "down_loop ?j n s1 = Some (i', s')"
        using less.prems c1 True sw by (simp add: down_loop_unfold)
      have inv1: "down_inv n ?j (keys s1)"
        unfolding k1 using less.prems(1,2) pp True len
        by (intro down_inv_step) simp_all
      have "n - ?j < n - i" using pp(3,4) by simp
      from less.hyps[OF this n1 inv1 d] show ?thesis .
    qed
  qed
qed

lemma down_loop_stay:
  "n \<le> length (snd s) \<Longrightarrow> \<forall>k\<in>{1..<n}. parent k = i \<longrightarrow> keys s ! i \<le> keys s ! k \<Longrightarrow>
   down_loop i n s = Some (i, s)"
proof (cases "n \<le> 2 * i + 1")
  case True
  assume "n \<le> length (snd s)"
  then show ?thesis using True by (simp add: down_loop_unfold)
next
  case False
  assume a: "n \<le> length (snd s)" "\<forall>k\<in>{1..<n}. parent k = i \<longrightarrow> keys s ! i \<le> keys s ! k"
  from False have c: "2 * i + 1 < n" by simp
  note pp = pick_props[OF c, of "keys s"]
  have "keys s ! i \<le> keys s ! pick i n (keys s)"
    using a(2) pp(1,2,3) by (simp add: Suc_le_eq)
  then show ?thesis using a(1) by (simp add: down_loop_unfold)
qed



lemma heap_upto_root: "heap_upto n xs \<Longrightarrow> k < n \<Longrightarrow> xs ! 0 \<le> xs ! k"
proof (induction k rule: less_induct)
  case (less k)
  show ?case
  proof (cases "k = 0")
    case True
    then show ?thesis by simp
  next
    case False
    then have pk: "parent k < k" by (simp add: parent_less)
    have "xs ! parent k \<le> xs ! k"
      using less.prems False by (simp add: heap_upto_def)
    moreover have "xs ! 0 \<le> xs ! parent k"
      using less.IH[OF pk less.prems(1)] pk less.prems(2) by simp
    ultimately show ?thesis by simp
  qed
qed

lemma heap_upto_take:
  assumes "heap_upto n xs" shows "heap_upto n (take n xs)"
  unfolding heap_upto_def
proof
  fix k assume k: "k \<in> {1..<n}"
  then have "parent k < k" by (simp add: parent_less)
  then have "parent k < n" using k by simp
  then show "take n xs ! parent k \<le> take n xs ! k"
    using assms k by (simp add: heap_upto_def)
qed

lemma keys_nth: "k < length (snd s) \<Longrightarrow> keys s ! k = pending (fst s (snd s ! k))"
  by (simp add: keys_def)

lemma heap_order_minimum:
  assumes "heap_order s" "v \<in> set (snd s)"
  shows "pending (fst s (snd s ! 0)) \<le> pending (fst s v)"
proof -
  obtain k where k: "k < length (snd s)" "snd s ! k = v"
    using assms(2) by (auto simp: in_set_conv_nth)
  have "keys s ! 0 \<le> keys s ! k"
    using assms(1) k(1) unfolding heap_order_def by (rule heap_upto_root)
  moreover have "keys s ! 0 = pending (fst s (snd s ! 0))"
    using k(1) by (intro keys_nth) arith
  moreover have "keys s ! k = pending (fst s v)"
    using k by (simp add: keys_nth)
  ultimately show ?thesis by simp
qed

lemma index_consistent_butlast:
  "index_consistent (m, p) \<Longrightarrow> index_consistent (m, butlast p)"
  by (simp add: index_consistent_def nth_butlast)

lemma Pool_Pop_Some:
  assumes "snd s \<noteq> []"
  shows "Pool_Pop s = Some (last (snd s), (fst s, butlast (snd s)))"
  using assms by (cases s) (simp add: Pool_Pop_def)

lemma keys_butlast: "keys (m, butlast p) = take (length p - 1) (keys (m, p))"
  by (simp add: keys_def butlast_conv_take take_map)

lemma mset_butlast: "p \<noteq> [] \<Longrightarrow> mset p = add_mset (last p) (mset (butlast p))"
proof -
  assume "p \<noteq> []"
  then have "p = butlast p @ [last p]" by simp
  then have "mset p = mset (butlast p @ [last p])" by simp
  then show ?thesis by simp
qed

text \<open>What \<open>heap_Pop\<close> and \<open>heap_Remove\<close> have in common once the sifting is over.\<close>

lemma pop_last:
  assumes r: "reordered s s2" and ne: "snd s \<noteq> []"
  shows "Pool_Pop s2 = Some (last (snd s2), (fst s2, butlast (snd s2)))"
    "mset (snd s) = add_mset (last (snd s2)) (mset (butlast (snd s2)))"
    "same_fields (fst s) (fst s2)"
    "\<forall>a. a \<notin> set (snd s) \<longrightarrow> fst s2 a = fst s a"
    "index_consistent s \<longrightarrow> index_consistent (fst s2, butlast (snd s2))"
    "length (butlast (snd s2)) = length (snd s) - 1"
    "last (snd s2) = snd s2 ! (length (snd s) - 1)"
proof -
  have len: "length (snd s2) = length (snd s)" using r by (simp add: reordered_def)
  then have ne2: "snd s2 \<noteq> []" using ne by auto
  show "Pool_Pop s2 = Some (last (snd s2), (fst s2, butlast (snd s2)))"
    using ne2 by (rule Pool_Pop_Some)
  show "mset (snd s) = add_mset (last (snd s2)) (mset (butlast (snd s2)))"
    using r mset_butlast[OF ne2] by (simp add: reordered_def)
  show "same_fields (fst s) (fst s2)" using r by (simp add: reordered_def)
  show "\<forall>a. a \<notin> set (snd s) \<longrightarrow> fst s2 a = fst s a" using r by (simp add: reordered_def)
  show "index_consistent s \<longrightarrow> index_consistent (fst s2, butlast (snd s2))"
    using r index_consistent_butlast[of "fst s2" "snd s2"] by (simp add: reordered_def)
  show "length (butlast (snd s2)) = length (snd s) - 1" using len by simp
  show "last (snd s2) = snd s2 ! (length (snd s) - 1)"
    using ne2 len by (simp add: last_conv_nth)
qed

lemma pop_last_heap:
  assumes r: "reordered s s2" and h: "heap_upto (length (snd s) - 1) (keys s2)"
  shows "heap_order (fst s2, butlast (snd s2))"
proof -
  have len: "length (snd s2) = length (snd s)" using r by (simp add: reordered_def)
  have "keys (fst s2, butlast (snd s2)) = take (length (snd s) - 1) (keys s2)"
    using keys_butlast[of "fst s2" "snd s2"] len by simp
  then show ?thesis
    using heap_upto_take[OF h] len by (simp add: heap_order_def)
qed

lemma keys_length: "length (keys s) = length (snd s)"
  by (simp add: keys_def)

lemma heap_Push_Some:
  "\<exists>s'. heap_Push w s = Some s' \<and> length (snd s') = Suc (length (snd s)) \<and>
     mset (snd s') = add_mset w (mset (snd s)) \<and> same_fields (fst s) (fst s') \<and>
     (\<forall>a. a \<notin> set (snd s) \<and> a \<noteq> w \<longrightarrow> fst s' a = fst s a) \<and>
     (heap_order s \<longrightarrow> heap_order s') \<and>
     (w \<notin> set (snd s) \<and> index_consistent s \<longrightarrow> index_consistent s')"
proof -
  obtain m p where s: "s = (m, p)" by (cases s)
  define m1 where "m1 = m(w := (m w)\<lparr>index := int (length p)\<rparr>)"
  define s1 where "s1 = (m1, p @ [w])"
  have pp: "Pool_Push w s = s1" by (simp add: Pool_Push_def s s1_def m1_def)
  have hp: "heap_Push w s = up (length p) s1"
    by (simp add: heap_Push_def pp Pool_Len_def s1_def)
  have jl: "length p < length (snd s1)" by (simp add: s1_def)
  obtain s' where u: "up (length p) s1 = Some s'" and r: "reordered s1 s'"
    using up_reordered[OF jl] by blast
  have sf1: "same_fields m m1" by (simp add: same_fields_def m1_def)
  have k1: "keys s1 = keys s @ [pending (m w)]"
    by (simp add: keys_def s1_def s m1_def)
  have "length (snd s') = Suc (length (snd s))" using r by (simp add: reordered_def s1_def s)
  moreover have "mset (snd s') = add_mset w (mset (snd s))"
    using r by (simp add: reordered_def s1_def s)
  moreover have "same_fields (fst s) (fst s')"
    using r sf1 same_fields_trans[of m m1 "fst s'"] by (simp add: reordered_def s1_def s)
  moreover have "\<forall>a. a \<notin> set (snd s) \<and> a \<noteq> w \<longrightarrow> fst s' a = fst s a"
    using r by (simp add: reordered_def s1_def s m1_def)
  moreover have "heap_order s'" if h: "heap_order s"
  proof -
    have "up_inv (Suc (length p)) (length p) (keys s1)"
      unfolding up_inv_def
    proof (intro conjI ballI impI)
      fix k assume k: "k \<in> {1..<Suc (length p)}" "k \<noteq> length p"
      then have kl: "k < length p" "1 \<le> k" by simp_all
      then have "parent k < length p" using parent_less[of k] by simp
      then show "keys s1 ! parent k \<le> keys s1 ! k"
        using h kl by (simp add: k1 nth_append keys_length heap_order_def heap_upto_def s)
    next
      fix k assume k: "k \<in> {1..<Suc (length p)}" "parent k = length p \<and> 0 < length p"
      have "parent k < k" "k < Suc (length p)" using k(1) by (simp_all add: parent_less)
      then have False using k(2) by arith
      then show "keys s1 ! parent (length p) \<le> keys s1 ! k" ..
    qed
    then have "heap_upto (Suc (length p)) (keys s')"
      using u by (intro up_heap[where s = s1 and j = "length p"]) (simp_all add: s1_def)
    moreover have "length (snd s') = Suc (length p)"
      using r by (simp add: reordered_def s1_def)
    ultimately show ?thesis by (simp add: heap_order_def)
  qed
  moreover have "index_consistent s'" if a: "w \<notin> set (snd s) \<and> index_consistent s"
  proof -
    have "index_consistent s1"
      unfolding index_consistent_def s1_def
    proof
      fix k assume "k \<in> {0..<length (snd (m1, p @ [w]))}"
      then have "k < length p \<or> k = length p" by auto
      then show "index (fst (m1, p @ [w]) (snd (m1, p @ [w]) ! k)) = int k"
      proof
        assume kl: "k < length p"
        then have "p ! k \<noteq> w" using a by (auto simp: s)
        then show ?thesis using a kl by (simp add: m1_def nth_append index_consistent_def s)
      next
        assume "k = length p"
        then show ?thesis by (simp add: m1_def)
      qed
    qed
    then show ?thesis using r by (simp add: reordered_def)
  qed
  ultimately show ?thesis using hp u by auto
qed

lemma heap_Pop_Some:
  assumes ne: "snd s \<noteq> []"
  shows "\<exists>s'. heap_Pop s = Some (snd s ! 0, s') \<and> length (snd s') = length (snd s) - 1 \<and>
     mset (snd s) = add_mset (snd s ! 0) (mset (snd s')) \<and> same_fields (fst s) (fst s') \<and>
     (\<forall>a. a \<notin> set (snd s) \<longrightarrow> fst s' a = fst s a) \<and>
     (heap_order s \<longrightarrow> heap_order s') \<and>
     (index_consistent s \<longrightarrow> index_consistent s')"
proof -
  define n where "n = length (snd s) - 1"
  have nl: "n < length (snd s)" "0 < length (snd s)" using ne by (simp_all add: n_def)
  obtain s1 where sw: "Pool_Swap 0 n s = Some s1"
    and p1: "snd s1 = (snd s)[0 := snd s ! n, n := snd s ! 0]"
    and k1: "keys s1 = (keys s)[0 := keys s ! n, n := keys s ! 0]"
    and r1: "reordered s s1"
    using Pool_Swap_Some[OF nl(2) nl(1)] by blast
  have n1: "n \<le> length (snd s1)" using r1 nl by (simp add: reordered_def)
  obtain i' s2 where d: "down_loop 0 n s1 = Some (i', s2)" and r2: "reordered s1 s2"
    and fr: "\<forall>k. n \<le> k \<longrightarrow> snd s2 ! k = snd s1 ! k"
    using down_loop_reordered[OF n1, of 0] by blast
  have r: "reordered s s2" using r1 r2 by (rule reordered_trans)
  note pl = pop_last[OF r ne]
  have "snd s2 ! n = snd s ! 0" using fr p1 nl by simp
  then have lst: "last (snd s2) = snd s ! 0" using pl(7) by (simp add: n_def)
  have nn: "length (snd s) - Suc 0 = n" by (simp add: n_def)
  have hp: "heap_Pop s = Some (snd s ! 0, (fst s2, butlast (snd s2)))"
    using nl sw d pl(1) lst by (simp add: heap_Pop_def Pool_Len_def Let_def nn down_def)
  have "heap_order (fst s2, butlast (snd s2))" if h: "heap_order s"
  proof -
    have "down_inv n 0 (keys s1)"
      unfolding down_inv_def
    proof (intro conjI ballI impI)
      fix k assume k: "k \<in> {1..<n}" "parent k \<noteq> 0"
      then have "parent k < k" by (simp add: parent_less)
      then have "keys s1 ! parent k = keys s ! parent k" "keys s1 ! k = keys s ! k"
        using k by (simp_all add: k1)
      moreover have "keys s ! parent k \<le> keys s ! k"
        using h k(1) nl by (simp add: heap_order_def heap_upto_def)
      ultimately show "keys s1 ! parent k \<le> keys s1 ! k" by simp
    next
      fix k assume "parent k = 0 \<and> (0::nat) < 0"
      then show "keys s1 ! parent 0 \<le> keys s1 ! k" by simp
    qed
    then have "heap_upto n (keys s2)" using d n1 by (intro down_loop_heap[where s = s1]) 
    then show ?thesis using r by (intro pop_last_heap[where s = s]) (simp_all add: n_def)
  qed
  then show ?thesis using hp pl lst by auto
qed

lemma down_loop_same:
  assumes n: "n \<le> length (snd s)" and d: "down_loop i n s = Some (i, s')"
  shows "s' = s \<and> (n \<le> 2 * i + 1 \<or> \<not> keys s ! pick i n (keys s) < keys s ! i)"
proof (cases "n \<le> 2 * i + 1 \<or> \<not> keys s ! pick i n (keys s) < keys s ! i")
  case True
  then show ?thesis using d n by (auto simp: down_loop_unfold split: if_splits)
next
  case False
  then have c: "2 * i + 1 < n" "keys s ! pick i n (keys s) < keys s ! i" by simp_all
  note pp = pick_props[OF c(1), of "keys s"]
  have il: "i < length (snd s)" "pick i n (keys s) < length (snd s)" using c(1) pp(3) n by simp_all
  obtain s1 where sw: "Pool_Swap i (pick i n (keys s)) s = Some s1" and r1: "reordered s s1"
    using Pool_Swap_Some[OF il] by blast
  have n1: "n \<le> length (snd s1)" using r1 n by (simp add: reordered_def)
  have "down_loop (pick i n (keys s)) n s1 = Some (i, s')"
    using d c sw n by (simp add: down_loop_unfold)
  moreover obtain i' s'' where "down_loop (pick i n (keys s)) n s1 = Some (i', s'')"
    "pick i n (keys s) \<le> i'"
    using down_loop_reordered[OF n1] by blast
  ultimately have False using pp(4) by simp
  then show ?thesis ..
qed

lemma heap_Remove_Some:
  assumes il: "i < length (snd s)"
  shows "\<exists>s'. heap_Remove (int i) s = Some (snd s ! i, s') \<and> length (snd s') = length (snd s) - 1 \<and>
     mset (snd s) = add_mset (snd s ! i) (mset (snd s')) \<and> same_fields (fst s) (fst s') \<and>
     (\<forall>a. a \<notin> set (snd s) \<longrightarrow> fst s' a = fst s a) \<and>
     (hole_inv (length (snd s)) i (keys s) \<longrightarrow> heap_order s') \<and>
     (index_consistent s \<longrightarrow> index_consistent s')"
proof -
  define n where "n = length (snd s) - 1"
  have ne: "snd s \<noteq> []" using il by auto
  have nl: "n < length (snd s)" "i \<le> n" "length (snd s) = Suc n" using il by (simp_all add: n_def)
  have nn: "int (length (snd s)) - 1 = int n" using nl by simp
  text \<open>the state before \<open>Pool_Pop\<close>, in both branches\<close>
  have "\<exists>s2. heap_Remove (int i) s = Pool_Pop s2 \<and> reordered s s2 \<and> snd s2 ! n = snd s ! i \<and>
          (hole_inv (length (snd s)) i (keys s) \<longrightarrow> heap_upto n (keys s2))"
  proof (cases "i = n")
    case True
    have "heap_Remove (int i) s = Pool_Pop s"
      using True by (simp add: heap_Remove_def Pool_Len_def Let_def nn)
    moreover have "heap_upto n (keys s)" if h: "hole_inv (length (snd s)) i (keys s)"
      unfolding heap_upto_def
    proof
      fix k assume k: "k \<in> {1..<n}"
      then have "parent k < k" by (simp add: parent_less)
      then have "k \<noteq> i \<and> parent k \<noteq> i" using k True by simp
      then show "keys s ! parent k \<le> keys s ! k"
        using h k nl by (simp add: hole_inv_def)
    qed
    ultimately have "heap_Remove (int i) s = Pool_Pop s \<and> reordered s s \<and> snd s ! n = snd s ! i \<and>
          (hole_inv (length (snd s)) i (keys s) \<longrightarrow> heap_upto n (keys s))"
      using True by (simp add: reordered_refl)
    then show ?thesis by (rule exI)
  next
    case False
    then have iln: "i < n" using nl by simp
    obtain s1 where sw: "Pool_Swap i n s = Some s1"
      and p1: "snd s1 = (snd s)[i := snd s ! n, n := snd s ! i]"
      and k1: "keys s1 = (keys s)[i := keys s ! n, n := keys s ! i]"
      and r1: "reordered s s1"
      using Pool_Swap_Some[OF il nl(1)] by blast
    have n1: "n \<le> length (snd s1)" "i < length (snd s1)" using r1 nl il by (simp_all add: reordered_def)
    have kk: "\<And>k. k < n \<Longrightarrow> k \<noteq> i \<Longrightarrow> keys s1 ! k = keys s ! k"
      by (simp add: k1)
    have hole1: "hole_inv n i (keys s1)" if h: "hole_inv (length (snd s)) i (keys s)"
      unfolding hole_inv_def
    proof (intro conjI ballI impI)
      fix k assume k: "k \<in> {1..<n}" "k \<noteq> i \<and> parent k \<noteq> i"
      then have pk: "parent k < k" by (simp add: parent_less)
      have "keys s ! parent k \<le> keys s ! k" using h k nl by (simp add: hole_inv_def)
      then show "keys s1 ! parent k \<le> keys s1 ! k" using kk[of k] kk[of "parent k"] k pk by simp
    next
      fix k assume k: "k \<in> {1..<n}" "parent k = i \<and> 0 < i"
      have pk: "parent k < k" using k(1) by (simp add: parent_less)
      have pi: "parent i < i" using k(2) by (simp add: parent_less)
      have "keys s ! parent i \<le> keys s ! k" using h k nl by (simp add: hole_inv_def)
      then show "keys s1 ! parent i \<le> keys s1 ! k"
        using kk[of k] kk[of "parent i"] k pk pi iln by simp
    qed
    obtain i' s2 where d: "down_loop i n s1 = Some (i', s2)" and le: "i \<le> i'"
      and r2: "reordered s1 s2" and fr: "\<forall>k. n \<le> k \<longrightarrow> snd s2 ! k = snd s1 ! k"
      using down_loop_reordered[OF n1(1), of i] by blast
    have at_n: "snd s1 ! n = snd s ! i" using p1 nl il by simp
    have start: "heap_Remove (int i) s =
       (if \<not> i < i' then (case up i s2 of None \<Rightarrow> None | Some s3 \<Rightarrow> Pool_Pop s3) else Pool_Pop s2)"
      using False sw d by (simp add: heap_Remove_def Pool_Len_def Let_def nn down_def)
    show ?thesis
    proof (cases "i < i'")
      case True
      have "heap_upto n (keys s2)" if h: "hole_inv (length (snd s)) i (keys s)"
      proof -
        note h1 = hole1[OF h]
        have moved: "2 * i + 1 < n \<and> keys s1 ! pick i n (keys s1) < keys s1 ! i"
        proof (rule ccontr)
          assume "\<not> ?thesis"
          then have "down_loop i n s1 = Some (i, s1)" using n1 by (auto simp: down_loop_unfold)
          then show False using d True by simp
        qed
        note pp = pick_props[of i n "keys s1"]
        have "down_inv n i (keys s1)"
          unfolding down_inv_def
        proof (intro conjI ballI impI)
          fix k assume k: "k \<in> {1..<n}" "parent k \<noteq> i"
          show "keys s1 ! parent k \<le> keys s1 ! k"
          proof (cases "k = i")
            case ki: True
            then have i0: "0 < i" using k by simp
            have "keys s1 ! parent i \<le> keys s1 ! pick i n (keys s1)"
              using h1 pp moved i0 by (simp add: hole_inv_def)
            then show ?thesis using moved ki by simp
          next
            case False
            then show ?thesis using h1 k by (simp add: hole_inv_def)
          qed
        next
          fix k assume k: "k \<in> {1..<n}" "parent k = i \<and> 0 < i"
          then show "keys s1 ! parent i \<le> keys s1 ! k" using h1 by (simp add: hole_inv_def)
        qed
        then show ?thesis using d n1 by (intro down_loop_heap[where s = s1])
      qed
      moreover have "reordered s s2" using r1 r2 by (rule reordered_trans)
      moreover have "snd s2 ! n = snd s ! i" using fr at_n by simp
      moreover have "heap_Remove (int i) s = Pool_Pop s2" using start True by simp
      ultimately show ?thesis by (intro exI[of _ s2]) simp
    next
      case nm: False
      then have ii: "i' = i" using le by simp
      have same: "s2 = s1" "n \<le> 2 * i + 1 \<or> \<not> keys s1 ! pick i n (keys s1) < keys s1 ! i"
        using down_loop_same[OF n1(1), of i s2] d ii by simp_all
      obtain s3 where u: "up i s1 = Some s3" and r3: "reordered s1 s3"
        and fr3: "\<forall>k. i < k \<longrightarrow> snd s3 ! k = snd s1 ! k"
        using up_reordered[OF n1(2)] by blast
      have "heap_upto n (keys s3)" if h: "hole_inv (length (snd s)) i (keys s)"
      proof -
        note h1 = hole1[OF h]
        have "up_inv n i (keys s1)"
          unfolding up_inv_def
        proof (intro conjI ballI impI)
          fix k assume k: "k \<in> {1..<n}" "k \<noteq> i"
          show "keys s1 ! parent k \<le> keys s1 ! k"
          proof (cases "parent k = i")
            case True
            then have "k = 2 * i + 1 \<or> k = 2 * i + 2" using parent_eq_iff[of k i] k by simp
            then have c: "2 * i + 1 < n" using k by auto
            note pp = pick_props[OF c, of "keys s1"]
            have "keys s1 ! i \<le> keys s1 ! pick i n (keys s1)" using same(2) c by simp
            moreover have "keys s1 ! pick i n (keys s1) \<le> keys s1 ! k" using pp(5) k True by simp
            ultimately show ?thesis using True by simp
          next
            case False
            then show ?thesis using h1 k by (simp add: hole_inv_def)
          qed
        next
          fix k assume k: "k \<in> {1..<n}" "parent k = i \<and> 0 < i"
          then show "keys s1 ! parent i \<le> keys s1 ! k" using h1 by (simp add: hole_inv_def)
        qed
        then show ?thesis using u n1 iln by (intro up_heap[where s = s1 and j = i])
      qed
      moreover have "reordered s s3" using r1 r3 by (rule reordered_trans)
      moreover have "snd s3 ! n = snd s ! i" using fr3 at_n iln by simp
      moreover have "heap_Remove (int i) s = Pool_Pop s3" using start nm u same by simp
      ultimately show ?thesis by (intro exI[of _ s3]) simp
    qed
  qed
  then obtain s2 where rm: "heap_Remove (int i) s = Pool_Pop s2" and r: "reordered s s2"
    and at: "snd s2 ! n = snd s ! i"
    and hu: "hole_inv (length (snd s)) i (keys s) \<longrightarrow> heap_upto n (keys s2)" by blast
  note pl = pop_last[OF r ne]
  have lst: "last (snd s2) = snd s ! i" using pl(7) at by (simp add: n_def)
  have "hole_inv (length (snd s)) i (keys s) \<longrightarrow> heap_order (fst s2, butlast (snd s2))"
    using hu pop_last_heap[OF r] by (simp add: n_def)
  then show ?thesis using rm pl lst by auto
qed

section \<open>Construction\<close>

lemma go_platform64: "go_platform platform64"
  by (simp add: go_platform_def platform64_def)

lemma wrap_int_0: "go_platform pf \<Longrightarrow> wrap_int pf 0 = 0"
  by (auto simp: go_platform_def wrap_int_def)

lemma New_negative:
  "poolSize < 0 \<Longrightarrow> (make_chan pf ChanOfWorker poolSize :: addr chan option) = None \<and>
     New pf poolSize = ([], Panic MakeSizeOutOfRange)"
  by (simp add: New_def make_chan_def)

lemma New_zero:
  "go_platform pf \<Longrightarrow>
   New pf 0 = ([], Return \<lparr>pool = [], done_chan = \<lparr>buf = [], cap = 0, recvq = 0, taken = []\<rparr>,
     work = \<lparr>buf = [], cap = 0, recvq = 0, taken = []\<rparr>,
     workers = (\<lambda>_. zero_Worker), wtasks = (\<lambda>_. \<lparr>buf = [], cap = 0, recvq = 0, taken = []\<rparr>)\<rparr>)"
  by (simp add: New_def wrap_int_0 make_chan_def make_Pool_def heap_Init_def Pool_Len_def go_platform_def)

text \<open>
  C2, as the claim states it, fails at worker count 0: \<open>New\<close> does not fail there. It
  returns a balancer whose pool is empty, and no goroutine has been started.
\<close>

theorem C2_New_zero_returns:
  "is_Return (snd (New platform64 0)) \<and> \<not> is_Panic (snd (New platform64 0)) \<and>
   pool (ret (snd (New platform64 0))) = [] \<and> fst (New platform64 0) = []"
  by (simp add: New_zero [OF go_platform64])

text \<open>
  C2, amended: for every negative worker count the first \<^verbatim>\<open>make\<close> of \<open>New\<close> (the one
  of the \<^verbatim>\<open>done\<close> channel) panics, so \<open>New\<close> panics with no goroutine started, neither a
  worker nor the dispatch loop, and returns no balancer; for worker count 0, on a platform
  of Go, \<open>New\<close> does not fail: it returns a balancer with an empty pool and has started no
  goroutine.
\<close>

theorem C2_New_nonpositive:
  "(poolSize < 0 \<longrightarrow>
      (make_chan pf ChanOfWorker poolSize :: addr chan option) = None \<and>
      New pf poolSize = ([], Panic MakeSizeOutOfRange)) \<and>
   (go_platform pf \<longrightarrow>
      fst (New pf 0) = [] \<and> is_Return (snd (New pf 0)) \<and> pool (ret (snd (New pf 0))) = [])"
  by (simp add: New_zero New_negative)

theorem C2_New_nonpositive_witness:
  "(-1::int) < 0 \<and> go_platform platform64 \<and>
   (make_chan platform64 ChanOfWorker (-1) :: addr chan option) = None \<and>
   New platform64 (-1) = ([], Panic MakeSizeOutOfRange) \<and>
   fst (New platform64 0) = [] \<and> is_Return (snd (New platform64 0)) \<and>
   pool (ret (snd (New platform64 0))) = []"
  using C2_New_nonpositive [of "-1" platform64] go_platform64 by simp

end
